theory Spec2Isabelle
  imports Main "HOL-Library.AList"
begin

section \<open>Values, errors and library functions\<close>

text \<open>
  The registry of \<^verbatim>\<open>hive/utils/registry.py\<close> works on untyped Python values:
  configuration fragments are dictionaries with string keys, their leaves are scalars,
  lists, nested dictionaries or objects that were constructed earlier. An object carries
  the names of the classes it is an instance of (its class and all base classes) and a
  payload that tells two objects of one class apart. A float is carried by its printed
  form; the registry never computes with it.
\<close>

datatype pyval =
    VNone
  | VBool bool
  | VInt int
  | VFloat string
  | VStr string
  | VList "pyval list"
  | VDict "(string \<times> pyval) list"
  | VObj "string list" pyval

type_synonym 'v dict = "(string \<times> 'v) list"

text \<open>
  Every \<^verbatim>\<open>raise\<close> of the source and every exception of the interpreter that the source
  can run into is a value. \<open>ValueError_class_not_found name\<close> is
  \<^verbatim>\<open>ValueError(f"{name} class not found")\<close>: it carries the value that is formatted
  into the message. \<open>LibError\<close> is whatever a library parser or a registered
  constructor raises. The last three come from \<^verbatim>\<open>argparse\<close>: \<^verbatim>\<open>SystemExit\<close> when the parser
  prints its help or a usage error and exits, \<^verbatim>\<open>ArgumentError\<close> for an option string that
  is declared twice, and the \<^verbatim>\<open>ValueError\<close> for an option string that consists of dashes
  only.
\<close>

datatype error =
    ValueError_not_registrable
  | ValueError_type_name
  | ValueError_class_not_found pyval
  | KeyError string
  | TypeError string
  | AttributeError string
  | RecursionError
  | LibError string
  | SystemExit
  | ArgumentError string
  | ValueError_dest string

text \<open>
  \<^verbatim>\<open>yaml.safe_load\<close>, \<^verbatim>\<open>int\<close> and \<^verbatim>\<open>float\<close> applied to a string are library code.
  They are parameters of the model; \<^verbatim>\<open>str\<close> and \<^verbatim>\<open>bool\<close> of a string are written out below.
\<close>

record lib =
  yaml_safe_load :: "string \<Rightarrow> error + pyval"
  py_int :: "string \<Rightarrow> error + pyval"
  py_float :: "string \<Rightarrow> error + pyval"

text \<open>
  A parameter annotation, as far as the source looks at it: one of the four builtin
  types compared against in \<^verbatim>\<open>get_parsed_args\<close>, a subclass of \<^verbatim>\<open>Registrable\<close> (its class
  name and what its \<^verbatim>\<open>type_name()\<close> returns, \<open>None\<close> when it is the inherited one that
  raises \<^verbatim>\<open>ValueError\<close>), or anything else (no annotation, another class, a typing form).
\<close>

datatype annot = AInt | ABool | AStr | AFloat | ARegistrable string "string option" | AOther

text \<open>
  The values of the \<^verbatim>\<open>arguments\<close> dictionary of \<^verbatim>\<open>get_parsed_args\<close>: a type object itself,
  or an \<^verbatim>\<open>inspect.Parameter\<close> (name and annotation), which is what
  \<^verbatim>\<open>get_callable_parsed_args\<close> stores.
\<close>

datatype argdescr = TypeObj annot | ParameterObj string annot

text \<open>
  A registered constructor: an identifier (to tell invocations apart), the parameters
  \<^verbatim>\<open>inspect.signature\<close> reports for it, in order, and what invoking it with keyword
  arguments returns or raises.
\<close>

record ctor =
  ctor_id :: string
  params :: "(string \<times> annot) list"
  invoke :: "pyval dict \<Rightarrow> error + pyval"

section \<open>Dictionaries\<close>

text \<open>
  A Python dictionary keeps insertion order and one entry for each key: storing under a
  key that is present replaces the value in place, storing under a new key appends.
  That is \<open>AList.update\<close>. \<open>dict_update d e\<close> is \<^verbatim>\<open>d.update(e)\<close>, \<open>dict_of_items\<close> is a
  dictionary comprehension over the given items.
\<close>

definition dict_update :: "'v dict \<Rightarrow> 'v dict \<Rightarrow> 'v dict" where
  "dict_update d e = fold (\<lambda>(k, v) acc. AList.update k v acc) e d"

definition dict_of_items :: "(string \<times> 'v) list \<Rightarrow> 'v dict" where
  "dict_of_items items = dict_update [] items"

section \<open>The command line\<close>

text \<open>
  The process-wide override set is \<^verbatim>\<open>sys.argv\<close>. It is modelled as the sequence of its
  flag occurrences, in order: pairs of a flag token (\<^verbatim>\<open>--agent.qnet.x\<close>) and the token
  after it, the text. The text is a token that \<^verbatim>\<open>argparse\<close> takes for an argument: it does
  not begin with a dash.

  The parser is \<^verbatim>\<open>argparse.ArgumentParser()\<close> with its defaults (Python 3.11): it has the
  options \<^verbatim>\<open>-h\<close> and \<^verbatim>\<open>--help\<close> of its own and accepts abbreviations. Each declared option
  takes one argument and stores it under its destination, the option string without its
  leading dashes and with every other dash replaced by an underscore.
\<close>

type_synonym argv = "(string \<times> string) list"

definition dest_of :: "string \<Rightarrow> string" where
  "dest_of flag =
     map (\<lambda>c. if c = CHR ''-'' then CHR ''_'' else c)
       (dropWhile (\<lambda>c. c = CHR ''-'') flag)"

text \<open>
  \<^verbatim>\<open>add_argument\<close>, called for each option string in turn: an option string without a
  destination raises \<^verbatim>\<open>ValueError\<close>, one that the parser has already (\<^verbatim>\<open>--help\<close>, or an
  earlier one) raises \<^verbatim>\<open>ArgumentError\<close>.
\<close>

fun add_arguments :: "string list \<Rightarrow> string list \<Rightarrow> error + string list" where
  "add_arguments declared [] = Inr declared"
| "add_arguments declared (f # fs) =
     (if dest_of f = [] then Inl (ValueError_dest f)
      else if f \<in> set declared then Inl (ArgumentError f)
      else add_arguments (declared @ [f]) fs)"

definition startswith :: "string \<Rightarrow> string \<Rightarrow> bool" where
  "startswith key p = (take (length p) key = p)"

text \<open>\<^verbatim>\<open>f.partition('=')\<close>: the part before the first \<^verbatim>\<open>=\<close>, and the part after it if there is one.\<close>

definition split_eq :: "string \<Rightarrow> string \<times> string option" where
  "split_eq f =
     (takeWhile (\<lambda>c. c \<noteq> CHR ''='') f,
      if CHR ''='' \<in> set f then Some (tl (dropWhile (\<lambda>c. c \<noteq> CHR ''='') f)) else None)"

text \<open>
  How the parser reads a flag token, given the declared option strings. The token \<^verbatim>\<open>--\<close>
  ends the options: everything after it is an argument. A token that is no option of
  the parser is left over, with its text (\<open>Ignored\<close>). The parser's help options, their
  abbreviations and every usage error (an ambiguous abbreviation, \<^verbatim>\<open>--help=x\<close>) end the
  process (\<open>Exits\<close>). Otherwise the token selects a declared option: it is the option
  string, the option string followed by \<^verbatim>\<open>=value\<close>, or a prefix of exactly one of the
  parser's long option strings, again with or without \<^verbatim>\<open>=value\<close>.
\<close>

datatype reading = Ignored | End_of_options | Exits | Stores string "string option"

definition read_flag :: "string list \<Rightarrow> string \<Rightarrow> reading" where
  "read_flag opts f =
     (if f = ''--'' then End_of_options
      else if f = [] then Ignored
      else if hd f \<noteq> CHR ''-'' then Ignored
      else if f = ''-h'' then Exits
      else if f = ''--help'' then Exits
      else if f \<in> set opts then Stores f None
      else if length f = 1 then Ignored
      else if f ! 1 \<noteq> CHR ''-'' then (if f ! 1 = CHR ''h'' then Exits else Ignored)
      else
        (case split_eq f of
           (p, ex) \<Rightarrow>
             if ex \<noteq> None \<and> p = ''--help'' then Exits
             else if ex \<noteq> None \<and> p \<in> set opts then Stores p ex
             else
               (case filter (\<lambda>opt. startswith opt p) (''--help'' # opts) of
                  [] \<Rightarrow> Ignored
                | [opt] \<Rightarrow> if opt = ''--help'' then Exits else Stores opt ex
                | _ \<Rightarrow> Exits)))"

text \<open>
  The parser goes through the occurrences in order; a stored value replaces an earlier
  one for the same destination.
\<close>

fun scan_args :: "string list \<Rightarrow> argv \<Rightarrow> (string option) dict \<Rightarrow> error + (string option) dict" where
  "scan_args opts [] ns = Inr ns"
| "scan_args opts ((f, s) # rest) ns =
     (case read_flag opts f of
        Ignored \<Rightarrow> scan_args opts rest ns
      | End_of_options \<Rightarrow> Inr ns
      | Exits \<Rightarrow> Inl SystemExit
      | Stores opt ex \<Rightarrow>
          scan_args opts rest
            (AList.update (dest_of opt) (Some (case ex of None \<Rightarrow> s | Some e \<Rightarrow> e)) ns))"

text \<open>
  Lines 88 to 92: the parser is built, the options are declared, and
  \<^verbatim>\<open>vars(parser.parse_known_args()[0])\<close> has every destination, with \<^verbatim>\<open>None\<close> where nothing
  was stored.
\<close>

definition parse_known_args :: "string list \<Rightarrow> argv \<Rightarrow> error + (string option) dict" where
  "parse_known_args option_strings av =
     (case add_arguments [''-h'', ''--help''] option_strings of
        Inl e \<Rightarrow> Inl e
      | Inr _ \<Rightarrow>
          scan_args option_strings av
            (dict_of_items (map (\<lambda>f. (dest_of f, None)) option_strings)))"

section \<open>The argument resolver\<close>

text \<open>
  Line 87: the prefix with its dot, empty for \<^verbatim>\<open>None\<close>; line 90: the option string
  \<^verbatim>\<open>f"--{prefix}{argument}"\<close>.
\<close>

definition dotted :: "string option \<Rightarrow> string" where
  "dotted prefix = (case prefix of None \<Rightarrow> [] | Some p \<Rightarrow> p @ ''.'')"

definition option_string :: "string \<Rightarrow> string \<Rightarrow> string" where
  "option_string p argument = ''--'' @ p @ argument"

definition strip_key :: "string \<Rightarrow> string \<Rightarrow> string" where
  "strip_key p key = (if startswith key p then drop (length p) key else key)"

text \<open>The comprehension of lines 95 to 99: keep what is not \<^verbatim>\<open>None\<close>, under the stripped key.\<close>

definition supplied_items :: "string \<Rightarrow> (string option) dict \<Rightarrow> (string \<times> string) list" where
  "supplied_items p parsed =
     concat (map (\<lambda>(key, v). case v of None \<Rightarrow> [] | Some s \<Rightarrow> [(strip_key p key, s)]) parsed)"

definition is_primitive :: "argdescr \<Rightarrow> bool" where
  "is_primitive expected_type =
     (expected_type = TypeObj AInt \<or> expected_type = TypeObj ABool
      \<or> expected_type = TypeObj AStr \<or> expected_type = TypeObj AFloat)"

text \<open>Calling one of the four builtin types on a string.\<close>

definition call_primitive :: "lib \<Rightarrow> argdescr \<Rightarrow> string \<Rightarrow> error + pyval" where
  "call_primitive l expected_type s =
     (if expected_type = TypeObj AInt then py_int l s
      else if expected_type = TypeObj ABool then Inr (VBool (s \<noteq> []))
      else if expected_type = TypeObj AStr then Inr (VStr s)
      else py_float l s)"

text \<open>
  The loop of lines 101 to 106 over the supplied items. \<^verbatim>\<open>arguments[argument]\<close> raises
  \<^verbatim>\<open>KeyError\<close> for a key that is not declared; the first exception ends the loop.
\<close>

fun convert_args :: "lib \<Rightarrow> argdescr dict \<Rightarrow> (string \<times> string) list \<Rightarrow> error + pyval dict" where
  "convert_args l arguments [] = Inr []"
| "convert_args l arguments ((argument, s) # rest) =
     (case map_of arguments argument of
        None \<Rightarrow> Inl (KeyError argument)
      | Some expected_type \<Rightarrow>
          (case (if is_primitive expected_type then call_primitive l expected_type s
                 else yaml_safe_load l s) of
             Inl e \<Rightarrow> Inl e
           | Inr v \<Rightarrow>
               (case convert_args l arguments rest of
                  Inl e \<Rightarrow> Inl e
                | Inr d \<Rightarrow> Inr ((argument, v) # d))))"

definition get_parsed_args :: "lib \<Rightarrow> argv \<Rightarrow> argdescr dict \<Rightarrow> string option \<Rightarrow> error + pyval dict" where
  "get_parsed_args l av arguments prefix =
     (let p = dotted prefix
      in case parse_known_args (map (\<lambda>(argument, _). option_string p argument) arguments) av of
           Inl e \<Rightarrow> Inl e
         | Inr parsed_args \<Rightarrow>
             convert_args l arguments (dict_of_items (supplied_items p parsed_args)))"

definition get_callable_parsed_args :: "lib \<Rightarrow> argv \<Rightarrow> ctor \<Rightarrow> string option \<Rightarrow> error + pyval dict" where
  "get_callable_parsed_args l av callable prefix =
     get_parsed_args l av
       (map (\<lambda>(argument, a). (argument, ParameterObj argument a))
          (filter (\<lambda>(argument, _). argument \<noteq> ''self'') (params callable)))
       prefix"

section \<open>The registry\<close>

text \<open>
  \<^verbatim>\<open>Registry._registry\<close> maps a family's type name to its table of variants. The getter of
  a family is created by the first \<^verbatim>\<open>register\<close> call for that type name and closes over
  the \<^verbatim>\<open>type\<close> and the \<^verbatim>\<open>constructor\<close> arguments of that call; both are kept with the
  family's entry.
\<close>

record family =
  fam_type :: annot
  fam_constructor :: ctor
  variants :: "ctor dict"

type_synonym registry = "family dict"

definition register :: "registry \<Rightarrow> string \<Rightarrow> ctor \<Rightarrow> annot \<Rightarrow> error + registry" where
  "register reg name constructor type =
     (case type of
        ARegistrable cls tn \<Rightarrow>
          (case tn of
             None \<Rightarrow> Inl ValueError_type_name
           | Some t \<Rightarrow>
               (let reg1 = (case map_of reg t of
                              None \<Rightarrow> AList.update t
                                \<lparr>fam_type = type, fam_constructor = constructor, variants = []\<rparr> reg
                            | Some _ \<Rightarrow> reg)
                in Inr (map (\<lambda>(k, e). if k = t
                              then (k, e\<lparr>variants := AList.update name constructor (variants e)\<rparr>)
                              else (k, e)) reg1)))
      | _ \<Rightarrow> Inl ValueError_not_registrable)"

fun register_all :: "registry \<Rightarrow> annot \<Rightarrow> ctor dict \<Rightarrow> error + registry" where
  "register_all reg base_class [] = Inr reg"
| "register_all reg base_class ((cls, c) # class_dict) =
     (case register reg cls c base_class of
        Inl e \<Rightarrow> Inl e
      | Inr reg' \<Rightarrow> register_all reg' base_class class_dict)"

text \<open>\<^verbatim>\<open>isinstance(v, type)\<close> for a \<^verbatim>\<open>Registrable\<close> subclass: only objects are instances.\<close>

definition isinstance :: "pyval \<Rightarrow> annot \<Rightarrow> bool" where
  "isinstance v type =
     (case type of
        ARegistrable cls _ \<Rightarrow> (case v of VObj classes _ \<Rightarrow> cls \<in> set classes | _ \<Rightarrow> False)
      | _ \<Rightarrow> False)"

text \<open>\<^verbatim>\<open>name in table\<close> and \<^verbatim>\<open>table[name]\<close>: lists and dictionaries cannot be hashed.\<close>

definition lookup_variant :: "ctor dict \<Rightarrow> pyval \<Rightarrow> error + ctor option" where
  "lookup_variant table name =
     (case name of
        VStr s \<Rightarrow> Inr (map_of table s)
      | VList _ \<Rightarrow> Inl (TypeError ''unhashable type'')
      | VDict _ \<Rightarrow> Inl (TypeError ''unhashable type'')
      | _ \<Rightarrow> Inr None)"

text \<open>
  One constructor invocation, as recorded in the trace of a resolution: which
  constructor, with which keyword arguments.
\<close>

type_synonym invocation = "string \<times> pyval dict"

text \<open>
  The getter and \<^verbatim>\<open>construct_objects\<close> call each other. The \<open>nat\<close> argument is the
  number of getter frames the interpreter's recursion limit still allows; at zero the
  call raises \<^verbatim>\<open>RecursionError\<close>.

  The getter returns three things: what the call returns or raises, the caller's
  \<^verbatim>\<open>object_or_config\<close> as it is after the call (the source updates the fragment's
  \<^verbatim>\<open>kwargs\<close> dictionary in place), and the constructor invocations made, in order.
  \<open>construct_loop\<close> is the \<^verbatim>\<open>for\<close> loop of \<^verbatim>\<open>construct_objects\<close> over the remaining
  parameters: it returns the exception, if any, the \<^verbatim>\<open>config\<close> dictionary as the loop
  leaves it, and the invocations made.
\<close>

fun getter :: "lib \<Rightarrow> registry \<Rightarrow> argv \<Rightarrow> nat \<Rightarrow> string \<Rightarrow> pyval \<Rightarrow> string option
                 \<Rightarrow> (error + pyval) \<times> pyval \<times> invocation list"
and construct_loop :: "lib \<Rightarrow> registry \<Rightarrow> argv \<Rightarrow> nat \<Rightarrow> string \<Rightarrow> (string \<times> annot) list
                 \<Rightarrow> pyval dict \<Rightarrow> error option \<times> pyval dict \<times> invocation list"
where
  "getter l reg av 0 t object_or_config prefix = (Inl RecursionError, object_or_config, [])"
| "getter l reg av (Suc n) t object_or_config prefix =
     (case map_of reg t of
        None \<Rightarrow> (Inl (AttributeError (''get_'' @ t)), object_or_config, [])
      | Some fam \<Rightarrow>
          if object_or_config = VNone then (Inr VNone, object_or_config, [])
          else if isinstance object_or_config (fam_type fam)
          then (Inr object_or_config, object_or_config, [])
          else
            (case object_or_config of
               VDict d \<Rightarrow>
                 (case map_of d ''name'' of
                    None \<Rightarrow> (Inl (KeyError ''name''), object_or_config, [])
                  | Some name \<Rightarrow>
                 (case map_of d ''kwargs'' of
                    None \<Rightarrow> (Inl (KeyError ''kwargs''), object_or_config, [])
                  | Some kwargs \<Rightarrow>
                 (case lookup_variant (variants fam) name of
                    Inl e \<Rightarrow> (Inl e, object_or_config, [])
                  | Inr None \<Rightarrow> (Inl (ValueError_class_not_found name), object_or_config, [])
                  | Inr (Some object_class) \<Rightarrow>
                 (case get_callable_parsed_args l av object_class prefix of
                    Inl e \<Rightarrow> (Inl e, object_or_config, [])
                  | Inr parsed_args \<Rightarrow>
                 (case kwargs of
                    VDict kw \<Rightarrow>
                      (case construct_loop l reg av n (dotted prefix)
                              (params (fam_constructor fam)) (dict_update kw parsed_args) of
                         (Some e, kw', calls) \<Rightarrow>
                           (Inl e, VDict (AList.update ''kwargs'' (VDict kw') d), calls)
                       | (None, kw', calls) \<Rightarrow>
                           (invoke object_class kw',
                            VDict (AList.update ''kwargs'' (VDict kw') d),
                            calls @ [(ctor_id object_class, kw')]))
                  | _ \<Rightarrow> (Inl (AttributeError ''update''), object_or_config, []))))))
             | _ \<Rightarrow> (Inl (TypeError ''not subscriptable''), object_or_config, [])))"
| "construct_loop l reg av n p [] config = (None, config, [])"
| "construct_loop l reg av n p ((argument, expected_type) # rest) config =
     (case map_of config argument of
        None \<Rightarrow> construct_loop l reg av n p rest config
      | Some v \<Rightarrow>
          (case expected_type of
             ARegistrable cls tn \<Rightarrow>
               (case tn of
                  None \<Rightarrow> (Some ValueError_type_name, config, [])
                | Some t \<Rightarrow>
                    (case getter l reg av n t v (Some (p @ argument)) of
                       (Inl e, v', calls) \<Rightarrow> (Some e, AList.update argument v' config, calls)
                     | (Inr obj, v', calls) \<Rightarrow>
                         (case construct_loop l reg av n p rest (AList.update argument obj config) of
                            (r, config', calls') \<Rightarrow> (r, config', calls @ calls'))))
           | _ \<Rightarrow> construct_loop l reg av n p rest config))"

text \<open>\<^verbatim>\<open>construct_objects(object_constructor, config, prefix)\<close>, lines 60 to 73.\<close>

definition construct_objects :: "lib \<Rightarrow> registry \<Rightarrow> argv \<Rightarrow> nat \<Rightarrow> ctor \<Rightarrow> pyval dict \<Rightarrow> string option
                 \<Rightarrow> error option \<times> pyval dict \<times> invocation list" where
  "construct_objects l reg av n object_constructor config prefix =
     construct_loop l reg av n (dotted prefix) (params object_constructor) config"

section \<open>The callable wrapper\<close>








section \<open>Notions used in the statements\<close>

text \<open>What a getter call returns or raises, without the trace.\<close>

definition returned :: "(error + pyval) \<times> pyval \<times> invocation list \<Rightarrow> error + pyval" where
  "returned out = fst out"

text \<open>
  Parameter names are Python identifiers: in particular they contain neither a dash nor
  a dot, and a signature lists each name once.
\<close>

definition plain_name :: "string \<Rightarrow> bool" where
  "plain_name a = (CHR ''-'' \<notin> set a \<and> CHR ''.'' \<notin> set a)"

definition wellformed_signature :: "(string \<times> annot) list \<Rightarrow> bool" where
  "wellformed_signature sig = (distinct (map fst sig) \<and> list_all plain_name (map fst sig))"

text \<open>
  The text the parser stores last for a declared option: that of the last flag, before
  any \<^verbatim>\<open>--\<close>, that selects the option (\<open>None\<close> when no flag does).
\<close>

fun supplied :: "string list \<Rightarrow> argv \<Rightarrow> string \<Rightarrow> string option" where
  "supplied opts [] opt = None"
| "supplied opts ((f, s) # rest) opt =
     (case read_flag opts f of
        End_of_options \<Rightarrow> None
      | Stores opt' ex \<Rightarrow>
          (case supplied opts rest opt of
             Some v \<Rightarrow> Some v
           | None \<Rightarrow> if opt' = opt then Some (case ex of None \<Rightarrow> s | Some e \<Rightarrow> e) else None)
      | _ \<Rightarrow> supplied opts rest opt)"

text \<open>
  The option strings that the resolver declares for a constructor and a prefix (lines 78
  to 82 and 89 to 90): one for each parameter other than \<^verbatim>\<open>self\<close>.
\<close>

definition declared_options :: "ctor \<Rightarrow> string option \<Rightarrow> string list" where
  "declared_options callable prefix =
     map (option_string (dotted prefix)) (filter (\<lambda>a. a \<noteq> ''self'') (map fst (params callable)))"

text \<open>The destination of the option string that consists of the dotted prefix alone.\<close>

definition stem :: "string \<Rightarrow> string" where
  "stem p = dest_of (''--'' @ p)"

text \<open>
  What the construction engine makes of the value \<open>v\<close> stored under parameter \<open>x\<close>,
  when it walks the signature \<open>sig\<close> with dotted prefix \<open>p\<close>: the object the getter of
  the family returns for it when \<open>x\<close> is annotated with a \<^verbatim>\<open>Registrable\<close> class, the
  value itself otherwise.
\<close>

definition resolved_value :: "lib \<Rightarrow> registry \<Rightarrow> argv \<Rightarrow> nat \<Rightarrow> string \<Rightarrow> (string \<times> annot) list
                 \<Rightarrow> string \<Rightarrow> pyval \<Rightarrow> error + pyval" where
  "resolved_value l reg av n p sig x v =
     (case map_of sig x of
        Some (ARegistrable cls (Some t)) \<Rightarrow> returned (getter l reg av n t v (Some (p @ x)))
      | _ \<Rightarrow> Inr v)"

section \<open>A small registry to run the model on\<close>

text \<open>
  A few facts about the library functions, as a table: \<^verbatim>\<open>yaml.safe_load("2")\<close> is the
  integer 2, \<^verbatim>\<open>yaml.safe_load("3.5")\<close> the float 3.5, and so on. Texts outside the table
  are not needed below.
\<close>

definition yaml_table :: "string \<Rightarrow> error + pyval" where
  "yaml_table s =
     (if s = ''2'' then Inr (VInt 2)
      else if s = ''3'' then Inr (VInt 3)
      else if s = ''3.5'' then Inr (VFloat ''3.5'')
      else if s = ''{name: X, kwargs: {}}''
        then Inr (VDict [(''name'', VStr ''X''), (''kwargs'', VDict [])])
      else Inl (LibError ''not in the table''))"

definition table_lib :: lib where
  "table_lib =
     \<lparr>yaml_safe_load = yaml_table,
      py_int = (\<lambda>s. if s = ''2'' then Inr (VInt 2) else if s = ''3'' then Inr (VInt 3)
                    else Inl (LibError ''not in the table'')),
      py_float = (\<lambda>s. if s = ''3.5'' then Inr (VFloat ''3.5'')
                      else Inl (LibError ''not in the table''))\<rparr>"

text \<open>
  Family \<open>f\<close> (class \<open>F\<close>) has the variants \<open>A\<close>, registered first, and \<open>B\<close>; family
  \<open>g\<close> (class \<open>G\<close>) has the variant \<open>X\<close>; family \<open>h\<close> (class \<open>H\<close>) has the variant
  \<open>H1\<close>. \<open>B\<close> and \<open>H1\<close> take a parameter \<open>g\<close> annotated with class \<open>G\<close>. Every
  constructor returns an object that remembers the keyword arguments it was given.
\<close>

definition ex_A :: ctor where
  "ex_A = \<lparr>ctor_id = ''A'', params = [(''x'', AInt)],
           invoke = (\<lambda>kw. Inr (VObj [''A'', ''F''] (VDict kw)))\<rparr>"

definition ex_B :: ctor where
  "ex_B = \<lparr>ctor_id = ''B'', params = [(''g'', ARegistrable ''G'' (Some ''g'')), (''s'', AStr)],
           invoke = (\<lambda>kw. Inr (VObj [''B'', ''F''] (VDict kw)))\<rparr>"

definition ex_X :: ctor where
  "ex_X = \<lparr>ctor_id = ''X'', params = [(''x'', AInt)],
           invoke = (\<lambda>kw. Inr (VObj [''X'', ''G''] (VDict kw)))\<rparr>"

definition ex_H1 :: ctor where
  "ex_H1 = \<lparr>ctor_id = ''H1'', params = [(''g'', ARegistrable ''G'' (Some ''g''))],
            invoke = (\<lambda>kw. Inr (VObj [''H1'', ''H''] (VDict kw)))\<rparr>"

definition ex_registry :: registry where
  "ex_registry =
     [(''f'', \<lparr>fam_type = ARegistrable ''F'' (Some ''f''), fam_constructor = ex_A,
              variants = [(''A'', ex_A), (''B'', ex_B)]\<rparr>),
      (''g'', \<lparr>fam_type = ARegistrable ''G'' (Some ''g''), fam_constructor = ex_X,
              variants = [(''X'', ex_X)]\<rparr>),
      (''h'', \<lparr>fam_type = ARegistrable ''H'' (Some ''h''), fam_constructor = ex_H1,
              variants = [(''H1'', ex_H1)]\<rparr>)]"

text \<open>The nested fragment \<^verbatim>\<open>{"name": "X", "kwargs": {}}\<close> and the object it resolves to.\<close>

definition frag_X :: pyval where
  "frag_X = VDict [(''name'', VStr ''X''), (''kwargs'', VDict [])]"

definition obj_X :: pyval where
  "obj_X = VObj [''X'', ''G''] (VDict [])"


section \<open>Facts about dictionaries\<close>

lemma update_fresh: "k \<notin> fst ` set d \<Longrightarrow> AList.update k v d = d @ [(k, v)]"
  by (induction d) auto

lemma dict_update_distinct: "distinct (map fst (d @ e)) \<Longrightarrow> dict_update d e = d @ e"
proof (induction e arbitrary: d)
  case Nil
  then show ?case by (simp add: dict_update_def)
next
  case (Cons x e)
  obtain k v where x: "x = (k, v)" by (cases x)
  from Cons.prems x have fresh: "k \<notin> fst ` set d" by auto
  from Cons.prems x have "distinct (map fst ((d @ [(k, v)]) @ e))" by auto
  from Cons.IH [OF this] show ?case
    using fresh x by (simp add: dict_update_def update_fresh)
qed

lemma dict_of_items_distinct: "distinct (map fst xs) \<Longrightarrow> dict_of_items xs = xs"
  using dict_update_distinct [of "[]" xs] by (simp add: dict_of_items_def)

lemma distinct_dict_update: "distinct (map fst d) \<Longrightarrow> distinct (map fst (dict_update d e))"
  unfolding dict_update_def
  by (induction e arbitrary: d) (auto simp: distinct_update)

lemma distinct_dict_of_items: "distinct (map fst (dict_of_items xs))"
  by (simp add: dict_of_items_def distinct_dict_update)

lemma map_of_dict_update:
  "map_of (dict_update d e) k = (case map_of (rev e) k of None \<Rightarrow> map_of d k | Some v \<Rightarrow> Some v)"
  unfolding dict_update_def
  by (induction e arbitrary: d) (auto simp: update_conv' split: option.splits)

lemma supplied_items_map:
  "supplied_items p (map (\<lambda>a. (key a, look a)) names) =
     map (\<lambda>a. (strip_key p (key a), the (look a))) (filter (\<lambda>a. look a \<noteq> None) names)"
  by (induction names) (auto simp: supplied_items_def)

lemma convert_args_keys:
  "convert_args l arguments S = Inr m \<Longrightarrow> map fst m = map fst S \<and> set (map fst S) \<subseteq> fst ` set arguments"
proof (induction S arbitrary: m)
  case Nil
  then show ?case by simp
next
  case (Cons x S)
  obtain k s where x: "x = (k, s)" by (cases x)
  from Cons.prems x show ?case
    by (auto split: option.splits sum.splits if_splits dest!: Cons.IH map_of_SomeD) force+
qed

lemma map_of_rev_distinct: "distinct (map fst xs) \<Longrightarrow> map_of (rev xs) k = map_of xs k"
proof (induction xs)
  case Nil
  then show ?case by simp
next
  case (Cons x xs)
  then have "fst x \<notin> fst ` set xs" by simp
  then have "map_of xs (fst x) = None" by (simp add: map_of_eq_None_iff)
  with Cons show ?case by (cases x) (auto simp: map_add_def split: option.splits)
qed


section \<open>Facts about the argument resolver\<close>

lemma dropWhile_none: "P \<notin> set a \<Longrightarrow> dropWhile (\<lambda>c. c = P) a = a"
  by (cases a) auto

lemma map_dash_id: "CHR ''-'' \<notin> set a \<Longrightarrow> map (\<lambda>c. if c = CHR ''-'' then CHR ''_'' else c) a = a"
  by (induction a) auto

lemma dest_of_plain: "CHR ''-'' \<notin> set a \<Longrightarrow> dest_of a = a"
  by (simp add: dest_of_def dropWhile_none map_dash_id)

lemma dest_of_no_dash: "CHR ''-'' \<notin> set (dest_of f)"
  by (auto simp: dest_of_def)

lemma dest_of_flag:
  assumes "CHR ''-'' \<notin> set a"
  shows "dest_of (option_string (dotted prefix) a) = stem (dotted prefix) @ a"
proof (cases prefix)
  case None
  then show ?thesis using assms by (simp add: stem_def dest_of_def dotted_def option_string_def dropWhile_none map_dash_id)
next
  case (Some r)
  have "dropWhile (\<lambda>c. c = CHR ''-'') (r @ ''.'' @ a) = dropWhile (\<lambda>c. c = CHR ''-'') (r @ ''.'') @ a"
    by (simp add: dropWhile_append)
  then show ?thesis using Some assms by (simp add: stem_def dest_of_def dotted_def option_string_def map_dash_id)
qed

lemma stripped_key_form:
  "\<exists>f. (f = [] \<or> CHR ''.'' \<in> set f) \<and>
       (\<forall>a. CHR ''-'' \<notin> set a \<longrightarrow> strip_key (dotted prefix) (dest_of (option_string (dotted prefix) a)) = f @ a)"
proof (cases "CHR ''-'' \<in> set (dotted prefix)")
  case False
  have "stem (dotted prefix) = dotted prefix"
    using False by (simp add: stem_def dest_of_def option_string_def dropWhile_none map_dash_id)
  then have "\<forall>a. CHR ''-'' \<notin> set a \<longrightarrow> strip_key (dotted prefix) (dest_of (option_string (dotted prefix) a)) = [] @ a"
    by (simp add: dest_of_flag strip_key_def startswith_def)
  then show ?thesis by blast
next
  case True
  then obtain r where r: "prefix = Some r" by (cases prefix) (auto simp: dotted_def)
  let ?q = "stem (dotted prefix)"
  have dot: "CHR ''.'' \<in> set ?q"
    using r by (simp add: stem_def dest_of_def option_string_def dotted_def dropWhile_append)
  have "strip_key (dotted prefix) (dest_of (option_string (dotted prefix) a)) = ?q @ a" if a: "CHR ''-'' \<notin> set a" for a
  proof -
    have nd: "CHR ''-'' \<notin> set (?q @ a)" using a dest_of_no_dash by (simp add: stem_def)
    have "take (length (dotted prefix)) (?q @ a) \<noteq> dotted prefix"
    proof
      assume eq: "take (length (dotted prefix)) (?q @ a) = dotted prefix"
      have "set (take (length (dotted prefix)) (?q @ a)) \<subseteq> set (?q @ a)" by (rule set_take_subset)
      with eq True nd show False by auto
    qed
    then show ?thesis using a by (simp add: dest_of_flag strip_key_def startswith_def)
  qed
  with dot show ?thesis by blast
qed

lemma filter_singleton_mem: "filter P xs = [x] \<Longrightarrow> x \<in> set xs"
proof -
  assume "filter P xs = [x]"
  then have "x \<in> set (filter P xs)" by simp
  then show ?thesis by simp
qed

lemma read_flag_declared: "read_flag opts f = Stores opt ex \<Longrightarrow> opt \<in> set opts"
  by (auto simp: read_flag_def split: if_splits prod.splits list.splits
           dest!: filter_singleton_mem)

lemma update_map_key:
  assumes "distinct opts" and "inj_on key (set opts)" and "opt \<in> set opts"
  shows "AList.update (key opt) v (map (\<lambda>x. (key x, g x)) opts)
           = map (\<lambda>x. (key x, (g(opt := v)) x)) opts"
  using assms
proof (induction opts)
  case Nil
  then show ?case by simp
next
  case (Cons a opts)
  show ?case
  proof (cases "a = opt")
    case True
    with Cons.prems have "opt \<notin> set opts" by simp
    then have "map (\<lambda>x. (key x, (g(opt := v)) x)) opts = map (\<lambda>x. (key x, g x)) opts"
      by (intro map_cong) auto
    with True show ?thesis by simp
  next
    case False
    with Cons.prems have mem: "opt \<in> set opts" and "key a \<noteq> key opt"
      by (auto simp: inj_on_def)
    moreover from Cons.prems have "distinct opts" and "inj_on key (set opts)"
      by (auto simp: inj_on_def)
    ultimately show ?thesis using Cons.IH False by simp
  qed
qed

lemma scan_args_result:
  assumes "distinct opts" and "inj_on dest_of (set opts)"
    and "scan_args opts av (map (\<lambda>x. (dest_of x, init x)) opts) = Inr ns"
  shows "ns = map (\<lambda>x. (dest_of x, case supplied opts av x of Some v \<Rightarrow> Some v | None \<Rightarrow> init x)) opts"
  using assms(3)
proof (induction av arbitrary: init)
  case Nil
  then show ?case by simp
next
  case (Cons occ av)
  obtain f s where occ: "occ = (f, s)" by (cases occ)
  show ?case
  proof (cases "read_flag opts f")
    case Ignored
    with Cons.prems occ have "scan_args opts av (map (\<lambda>x. (dest_of x, init x)) opts) = Inr ns" by simp
    from Cons.IH [OF this] Ignored occ show ?thesis by simp
  next
    case End_of_options
    with Cons.prems occ show ?thesis by simp
  next
    case Exits
    with Cons.prems occ show ?thesis by simp
  next
    case (Stores opt ex)
    let ?v = "case ex of None \<Rightarrow> s | Some e \<Rightarrow> e"
    from Stores have mem: "opt \<in> set opts" by (rule read_flag_declared)
    have upd: "AList.update (dest_of opt) (Some ?v) (map (\<lambda>x. (dest_of x, init x)) opts)
                 = map (\<lambda>x. (dest_of x, (init(opt := Some ?v)) x)) opts"
      by (rule update_map_key [OF assms(1,2) mem])
    from Cons.prems occ Stores
    have "scan_args opts av (map (\<lambda>x. (dest_of x, (init(opt := Some ?v)) x)) opts) = Inr ns"
      by (simp add: upd)
    from Cons.IH [OF this]
    have "ns = map (\<lambda>x. (dest_of x, case supplied opts av x of Some v \<Rightarrow> Some v
                                        | None \<Rightarrow> (init(opt := Some ?v)) x)) opts" .
    also have "\<dots> = map (\<lambda>x. (dest_of x, case supplied opts (occ # av) x of Some v \<Rightarrow> Some v
                                        | None \<Rightarrow> init x)) opts"
      using Stores occ by (intro map_cong) (auto split: option.splits)
    finally show ?thesis .
  qed
qed

lemma get_parsed_args_items:
  assumes dist: "distinct (map fst arguments)" and plain: "list_all plain_name (map fst arguments)"
    and res: "get_parsed_args l av arguments prefix = Inr m"
  shows "convert_args l arguments
           (map (\<lambda>a. (a, the (supplied (map (option_string (dotted prefix)) (map fst arguments)) av
                                 (option_string (dotted prefix) a))))
              (filter (\<lambda>a. supplied (map (option_string (dotted prefix)) (map fst arguments)) av
                               (option_string (dotted prefix) a) \<noteq> None)
                 (map fst arguments)))
         = Inr m"
proof -
  let ?p = "dotted prefix"
  let ?names = "map fst arguments"
  let ?opts = "map (option_string ?p) ?names"
  let ?q = "stem ?p"
  let ?look = "\<lambda>a. supplied ?opts av (option_string ?p a)"
  obtain f where f: "f = [] \<or> CHR ''.'' \<in> set f"
    and strip: "\<And>a. CHR ''-'' \<notin> set a \<Longrightarrow> strip_key ?p (dest_of (option_string ?p a)) = f @ a"
    using stripped_key_form [of prefix] by blast
  have nodash: "\<And>a. a \<in> set ?names \<Longrightarrow> CHR ''-'' \<notin> set a"
    using plain by (auto simp: list_all_iff plain_name_def)
  have nodot: "\<And>a. a \<in> set ?names \<Longrightarrow> CHR ''.'' \<notin> set a"
    using plain by (auto simp: list_all_iff plain_name_def)
  have flags: "map (\<lambda>(argument, _). option_string ?p argument) arguments = ?opts"
    by (simp add: case_prod_beta comp_def)
  have dist_opts: "distinct ?opts"
    using dist by (simp add: distinct_map inj_on_def option_string_def)
  have inj_dest: "inj_on dest_of (set ?opts)"
  proof (rule inj_onI)
    fix x y assume x: "x \<in> set ?opts" and y: "y \<in> set ?opts" and eq: "dest_of x = dest_of y"
    from x obtain a where a: "a \<in> set ?names" "x = option_string ?p a" by auto
    from y obtain b where b: "b \<in> set ?names" "y = option_string ?p b" by auto
    from eq a b have "?q @ a = ?q @ b" by (simp add: dest_of_flag nodash)
    with a b show "x = y" by simp
  qed
  from res obtain ns where parsed: "parse_known_args ?opts av = Inr ns"
    and conv0: "convert_args l arguments (dict_of_items (supplied_items ?p ns)) = Inr m"
    by (auto simp: get_parsed_args_def Let_def flags split: sum.splits)
  from dist_opts inj_dest have "distinct (map dest_of ?opts)"
    by (rule iffD2 [OF distinct_map, OF conjI])
  then have "distinct (map fst (map (\<lambda>x. (dest_of x, None :: string option)) ?opts))"
    by (simp only: map_map comp_def fst_conv)
  then have init: "dict_of_items (map (\<lambda>x. (dest_of x, None :: string option)) ?opts)
                     = map (\<lambda>x. (dest_of x, None)) ?opts"
    by (rule dict_of_items_distinct)
  from parsed [unfolded parse_known_args_def init]
  have "scan_args ?opts av (map (\<lambda>x. (dest_of x, None)) ?opts) = Inr ns"
    by (auto split: sum.splits)
  from scan_args_result [OF dist_opts inj_dest this]
  have "ns = map (\<lambda>x. (dest_of x, supplied ?opts av x)) ?opts"
    by (simp add: option.case_eq_if cong: map_cong)
  also have "\<dots> = map (\<lambda>a. (?q @ a, ?look a)) ?names"
    using nodash by (simp add: comp_def dest_of_flag cong: map_cong)
  finally have ns: "ns = map (\<lambda>a. (?q @ a, ?look a)) ?names" .
  let ?sup = "filter (\<lambda>a. ?look a \<noteq> None) ?names"
  have "supplied_items ?p (map (\<lambda>a. (?q @ a, ?look a)) ?names)
          = map (\<lambda>a. (strip_key ?p (?q @ a), the (?look a))) ?sup"
    by (rule supplied_items_map)
  also have "\<dots> = map (\<lambda>a. (f @ a, the (?look a))) ?sup"
    using nodash strip by (auto simp: dest_of_flag [symmetric])
  finally have items: "supplied_items ?p (map (\<lambda>a. (?q @ a, ?look a)) ?names)
          = map (\<lambda>a. (f @ a, the (?look a))) ?sup" .
  have "distinct (map fst (map (\<lambda>a. (f @ a, the (?look a))) ?sup))"
    using dist by (simp add: comp_def distinct_map inj_on_def)
  then have dict: "dict_of_items (map (\<lambda>a. (f @ a, the (?look a))) ?sup) = map (\<lambda>a. (f @ a, the (?look a))) ?sup"
    by (rule dict_of_items_distinct)
  from conv0 have conv: "convert_args l arguments (map (\<lambda>a. (f @ a, the (?look a))) ?sup) = Inr m"
    by (simp only: ns items dict)
  from convert_args_keys [OF conv]
  have sub: "(\<lambda>a. f @ a) ` set ?sup \<subseteq> set ?names"
    by (auto simp: comp_def)
  have "f = []" if "?sup \<noteq> []"
  proof (rule ccontr)
    assume "f \<noteq> []"
    with f have dot: "CHR ''.'' \<in> set f" by simp
    from that have "hd ?sup \<in> set ?sup" by (rule hd_in_set)
    with sub have "f @ hd ?sup \<in> set ?names" by blast
    from nodot [OF this] dot show False by simp
  qed
  then have eq1: "map (\<lambda>a. (f @ a, the (?look a))) ?sup = map (\<lambda>a. (a, the (?look a))) ?sup"
    by (cases "?sup = []") auto
  from conv [unfolded eq1] show ?thesis .
qed

lemma convert_args_values:
  assumes "convert_args l arguments S = Inr m"
    and "list_all (\<lambda>x. \<not> is_primitive (snd x)) arguments"
    and "map_of m k = Some v"
  shows "\<exists>s. map_of S k = Some s \<and> yaml_safe_load l s = Inr v"
  using assms(1,3)
proof (induction S arbitrary: m)
  case Nil
  then show ?case by simp
next
  case (Cons x S)
  obtain a s where x: "x = (a, s)" by (cases x)
  from Cons.prems(1) x obtain d where d: "map_of arguments a = Some d"
    by (auto split: option.splits)
  from d have "(a, d) \<in> set arguments" by (rule map_of_SomeD)
  with assms(2) have "\<not> is_primitive d" by (auto simp: list_all_iff)
  with Cons.prems(1) x d obtain u m' where
    u: "yaml_safe_load l s = Inr u" and m': "convert_args l arguments S = Inr m'" and m: "m = (a, u) # m'"
    by (auto split: sum.splits)
  show ?case
  proof (cases "k = a")
    case True
    with Cons.prems(2) m u x show ?thesis by simp
  next
    case False
    with Cons.prems(2) m have "map_of m' k = Some v" by simp
    from Cons.IH [OF m' this] False x show ?thesis by simp
  qed
qed

lemma callable_arguments_names:
  "map fst (map (\<lambda>(argument, a). (argument, ParameterObj argument a))
       (filter (\<lambda>(argument, _). argument \<noteq> ''self'') sig))
     = filter (\<lambda>a. a \<noteq> ''self'') (map fst sig)"
  by (induction sig) auto

lemma callable_arguments_not_primitive:
  "list_all (\<lambda>x. \<not> is_primitive (snd x))
     (map (\<lambda>(argument, a). (argument, ParameterObj argument a)) sig)"
  by (induction sig) (auto simp: is_primitive_def)

lemma map_of_map_self: "map_of (map (\<lambda>a. (a, g a)) xs) k = Some s \<Longrightarrow> k \<in> set xs \<and> s = g k"
  by (induction xs) (auto split: if_splits)

lemma scan_args_ignore:
  "read_flag opts k = Ignored \<Longrightarrow>
     scan_args opts (xs @ (k, v) # ys) ns = scan_args opts (xs @ ys) ns"
  by (induction xs arbitrary: ns) (auto split: reading.splits)

lemma parsed_args_ignore_flag:
  assumes "read_flag (map (\<lambda>(argument, _). option_string (dotted prefix) argument) arguments) k = Ignored"
  shows "get_parsed_args l (xs @ (k, v) # ys) arguments prefix
           = get_parsed_args l (xs @ ys) arguments prefix"
proof -
  let ?opts = "map (\<lambda>(argument, _). option_string (dotted prefix) argument) arguments"
  have "parse_known_args ?opts (xs @ (k, v) # ys) = parse_known_args ?opts (xs @ ys)"
    by (simp add: parse_known_args_def scan_args_ignore [OF assms] split: sum.splits)
  then show ?thesis by (simp add: get_parsed_args_def Let_def)
qed

lemma read_flag_other_root:
  assumes "c \<noteq> CHR ''h''" and "c \<noteq> CHR ''=''"
    and "list_all (\<lambda>opt. take 2 opt = ''--'' \<and> 2 < length opt \<and> opt ! 2 \<noteq> c) opts"
  shows "read_flag opts (''--'' @ c # rest) = Ignored"
proof -
  let ?k = "''--'' @ c # rest"
  let ?p = "''--'' @ c # takeWhile (\<lambda>x. x \<noteq> CHR ''='') rest"
  have third: "opt ! 2 \<noteq> c" and long: "2 < length opt" if "opt \<in> set opts" for opt
    using assms(3) that by (auto simp: list_all_iff)
  have notin: "''--'' @ c # r \<notin> set opts" for r
  proof
    assume "''--'' @ c # r \<in> set opts"
    from third [OF this] show False by simp
  qed
  have split: "fst (split_eq ?k) = ?p"
    using assms(2) by (simp add: split_eq_def)
  have nostart: "\<not> startswith opt ?p" if "opt \<in> set (''--help'' # opts)" for opt
  proof
    assume "startswith opt ?p"
    then have eq: "take (length ?p) opt = ?p" by (simp add: startswith_def)
    have "opt ! 2 = take (length ?p) opt ! 2" by simp
    also have "\<dots> = c" by (simp only: eq) simp
    finally have "opt ! 2 = c" .
    with that third assms(1) show False by auto
  qed
  have nh: "\<not> startswith ''--help'' ?p" by (rule nostart) simp
  have no: "filter (\<lambda>opt. startswith opt ?p) opts = []"
    using nostart by (simp add: filter_empty_conv)
  obtain p ex where pe: "split_eq ?k = (p, ex)" by (cases "split_eq ?k")
  with split have p: "p = ?p" by simp
  have "read_flag opts ?k =
          (case filter (\<lambda>opt. startswith opt ?p) (''--help'' # opts) of
             [] \<Rightarrow> Ignored
           | [opt] \<Rightarrow> if opt = ''--help'' then Exits else Stores opt ex
           | _ \<Rightarrow> Exits)"
    using assms(1) notin [of rest] notin [of "takeWhile (\<lambda>x. x \<noteq> CHR ''='') rest"] pe
    by (simp add: read_flag_def p)
  also have "\<dots> = Ignored" using nh no by simp
  finally show ?thesis .
qed

lemma option_strings_root:
  assumes "q \<noteq> []" and "hd q \<noteq> c"
  shows "list_all (\<lambda>opt. take 2 opt = ''--'' \<and> 2 < length opt \<and> opt ! 2 \<noteq> c)
           (map (\<lambda>(argument, _). option_string (dotted (Some q)) argument) arguments)"
  using assms by (cases q) (auto simp: list_all_iff option_string_def dotted_def)

lemma read_flag_end: "read_flag opts f = End_of_options \<longleftrightarrow> f = ''--''"
  by (auto simp: read_flag_def split: if_splits prod.splits list.splits)

text \<open>
  An option has a stored text exactly when some flag before the first \<^verbatim>\<open>--\<close> selects it.
\<close>

lemma supplied_iff_selected:
  "supplied opts av opt \<noteq> None \<longleftrightarrow>
     list_ex (\<lambda>(f, s). \<exists>ex. read_flag opts f = Stores opt ex)
       (takeWhile (\<lambda>(f, s). f \<noteq> ''--'') av)"
proof (induction av)
  case Nil
  show ?case by simp
next
  case (Cons occ av)
  obtain f s where occ: "occ = (f, s)" by (cases occ)
  show ?case
  proof (cases "read_flag opts f")
    case End_of_options
    then have "f = ''--''" by (simp add: read_flag_end)
    with End_of_options occ show ?thesis by simp
  next
    case Ignored
    then have "f \<noteq> ''--''" using read_flag_end [of opts f] by auto
    with Ignored occ Cons.IH show ?thesis by simp
  next
    case Exits
    then have "f \<noteq> ''--''" using read_flag_end [of opts f] by auto
    with Exits occ Cons.IH show ?thesis by simp
  next
    case (Stores opt' ex)
    then have "f \<noteq> ''--''" using read_flag_end [of opts f] by auto
    with Stores occ Cons.IH show ?thesis by (auto split: option.splits)
  qed
qed

lemma get_parsed_args_distinct:
  assumes "get_parsed_args l av arguments prefix = Inr m"
  shows "distinct (map fst m)"
proof -
  from assms obtain S where "convert_args l arguments (dict_of_items S) = Inr m"
    by (auto simp: get_parsed_args_def Let_def split: sum.splits)
  from convert_args_keys [OF this] show ?thesis
    by (simp add: distinct_dict_of_items)
qed

lemma merged_value:
  assumes "get_callable_parsed_args l av callable prefix = Inr parsed_args"
  shows "map_of (dict_update kw parsed_args) x =
           (case map_of parsed_args x of None \<Rightarrow> map_of kw x | Some v \<Rightarrow> Some v)"
proof -
  from assms have "distinct (map fst parsed_args)"
    unfolding get_callable_parsed_args_def by (rule get_parsed_args_distinct)
  then show ?thesis by (simp add: map_of_dict_update map_of_rev_distinct)
qed

section \<open>Facts about the construction engine and the getter\<close>


lemma construct_loop_value:
  assumes "construct_loop l reg av n p ps config = (None, config', calls)"
    and "distinct (map fst ps)" and "map_of config k = Some v"
  shows "\<exists>w. map_of config' k = Some w \<and> resolved_value l reg av n p ps k v = Inr w"
  using assms
proof (induction ps arbitrary: config config' calls v)
  case Nil
  then show ?case by (simp add: resolved_value_def)
next
  case (Cons a ps)
  obtain x ty where a: "a = (x, ty)" by (cases a)
  from Cons.prems a have dist: "distinct (map fst ps)" and fresh: "x \<notin> fst ` set ps" by auto
  have norest: "map_of ps x = None" using fresh by (simp add: map_of_eq_None_iff)
  have res_other: "resolved_value l reg av n p ((x, ty) # ps) k u = resolved_value l reg av n p ps k u"
    if "k \<noteq> x" for u using that by (simp add: resolved_value_def)
  have res_rest: "resolved_value l reg av n p ps x u = Inr u" for u
    using norest by (simp add: resolved_value_def)
  show ?case
  proof (cases "map_of config x")
    case None
    with Cons.prems have kx: "k \<noteq> x" by auto
    from Cons.prems a None have "construct_loop l reg av n p ps config = (None, config', calls)" by simp
    from Cons.IH [OF this dist Cons.prems(3)] show ?thesis using a res_other [OF kx] by simp
  next
    case (Some vx)
    show ?thesis
    proof (cases "\<exists>cls tn. ty = ARegistrable cls tn")
      case False
      with Cons.prems a Some have rec: "construct_loop l reg av n p ps config = (None, config', calls)"
        by (cases ty) auto
      from Cons.IH [OF rec dist Cons.prems(3)] obtain w where
        w: "map_of config' k = Some w" "resolved_value l reg av n p ps k v = Inr w" by blast
      show ?thesis
      proof (cases "k = x")
        case True
        with w res_rest have "w = v" by simp
        moreover have "resolved_value l reg av n p ((x, ty) # ps) x v = Inr v"
          using False by (cases ty) (auto simp: resolved_value_def)
        ultimately show ?thesis using w True a by simp
      next
        case kx: False
        then show ?thesis using w a res_other by simp
      qed
    next
      case True
      then obtain cls tn where ty: "ty = ARegistrable cls tn" by blast
      from Cons.prems a Some ty obtain t where tn: "tn = Some t" by (cases tn) auto
      obtain res v' cs where g: "getter l reg av n t vx (Some (p @ x)) = (res, v', cs)"
        by (cases "getter l reg av n t vx (Some (p @ x))")
      from Cons.prems a Some ty tn g obtain obj where res: "res = Inr obj" by (cases res) auto
      obtain r2 c2 cs2 where rec: "construct_loop l reg av n p ps (AList.update x obj config) = (r2, c2, cs2)"
        by (cases "construct_loop l reg av n p ps (AList.update x obj config)")
      from Cons.prems a Some ty tn g res rec have r2: "r2 = None" and c2: "c2 = config'" by auto
      show ?thesis
      proof (cases "k = x")
        case True
        have "map_of (AList.update x obj config) k = Some obj" using True by (simp add: update_conv')
        from Cons.IH [OF rec [unfolded r2 c2] dist this] res_rest True
        have "map_of config' x = Some obj" by auto
        moreover have "resolved_value l reg av n p ((x, ty) # ps) x v = Inr obj"
          using ty tn g res Some Cons.prems(3) True by (simp add: resolved_value_def returned_def)
        ultimately show ?thesis using True a by simp
      next
        case kx: False
        then have "map_of (AList.update x obj config) k = Some v"
          using Cons.prems(3) by (simp add: update_conv')
        from Cons.IH [OF rec [unfolded r2 c2] dist this] show ?thesis
          using a res_other [OF kx] by simp
      qed
    qed
  qed
qed

lemma isinstance_dict: "\<not> isinstance (VDict d) ty"
  by (simp add: isinstance_def split: annot.splits)

lemma getter_success:
  assumes fam: "map_of reg t = Some fam"
    and name: "map_of d ''name'' = Some (VStr name)"
    and kwargs: "map_of d ''kwargs'' = Some (VDict kw)"
    and variant: "map_of (variants fam) name = Some object_class"
    and parsed: "get_callable_parsed_args l av object_class prefix = Inr parsed_args"
    and ok: "getter l reg av (Suc n) t (VDict d) prefix = (Inr obj, frag, calls)"
  shows "\<exists>K sub. construct_loop l reg av n (dotted prefix) (params (fam_constructor fam))
                   (dict_update kw parsed_args) = (None, K, sub)
               \<and> invoke object_class K = Inr obj
               \<and> frag = VDict (AList.update ''kwargs'' (VDict K) d)
               \<and> calls = sub @ [(ctor_id object_class, K)]"
proof -
  obtain r K sub where loop: "construct_loop l reg av n (dotted prefix) (params (fam_constructor fam))
                   (dict_update kw parsed_args) = (r, K, sub)"
    by (cases "construct_loop l reg av n (dotted prefix) (params (fam_constructor fam))
                   (dict_update kw parsed_args)")
  from ok fam name kwargs variant parsed loop show ?thesis
    by (cases r) (auto simp: isinstance_dict lookup_variant_def)
qed

text \<open>
  A flag whose option string starts with another character than the prefix does is not
  seen by any resolution under that prefix: every prefix used below it extends it.
\<close>

lemma getter_ignore_flag:
  assumes "q \<noteq> []" and "hd q \<noteq> c" and "c \<noteq> CHR ''h''" and "c \<noteq> CHR ''=''"
  shows "getter l reg (xs @ (''--'' @ c # rest, v) # ys) n t obj (Some q)
           = getter l reg (xs @ ys) n t obj (Some q)"
  using assms(1,2)
proof (induction n arbitrary: t obj q)
  case 0
  show ?case by simp
next
  case (Suc n)
  let ?av' = "xs @ (''--'' @ c # rest, v) # ys"
  let ?av = "xs @ ys"
  have parsed: "get_callable_parsed_args l ?av' callable (Some q)
                  = get_callable_parsed_args l ?av callable (Some q)" for callable
    unfolding get_callable_parsed_args_def
    by (rule parsed_args_ignore_flag)
       (rule read_flag_other_root [OF assms(3,4) option_strings_root [OF Suc.prems]])
  have loop: "construct_loop l reg ?av' n (dotted (Some q)) sig config
                = construct_loop l reg ?av n (dotted (Some q)) sig config" for sig config
  proof (induction sig arbitrary: config)
    case Nil
    show ?case by simp
  next
    case (Cons a sig)
    obtain x ty where a: "a = (x, ty)" by (cases a)
    have "dotted (Some q) @ x \<noteq> []" and "hd (dotted (Some q) @ x) \<noteq> c"
      using Suc.prems by (auto simp: dotted_def)
    then have "getter l reg ?av' n t' v' (Some (dotted (Some q) @ x))
                 = getter l reg ?av n t' v' (Some (dotted (Some q) @ x))" for t' v'
      by (rule Suc.IH)
    then show ?case using a Cons.IH
      by (simp split: option.splits annot.splits prod.splits sum.splits)
  qed
  show ?case
    by (simp only: getter.simps parsed loop)
qed

section \<open>Running the model\<close>

lemmas resolver_defs =
  get_callable_parsed_args_def get_parsed_args_def parse_known_args_def read_flag_def
  split_eq_def dict_of_items_def dict_update_def supplied_items_def option_string_def
  dotted_def dest_of_def strip_key_def startswith_def is_primitive_def call_primitive_def
  Let_def

lemmas example_defs =
  ex_registry_def ex_A_def ex_B_def ex_X_def ex_H1_def table_lib_def yaml_table_def
  frag_X_def obj_X_def isinstance_def lookup_variant_def returned_def

text \<open>The example registry is what the registration calls build, in this order.\<close>

lemma ex_registry_registered:
  "(case register_all [] (ARegistrable ''F'' (Some ''f'')) [(''A'', ex_A), (''B'', ex_B)] of
      Inl e \<Rightarrow> Inl e
    | Inr reg \<Rightarrow>
        (case register reg ''X'' ex_X (ARegistrable ''G'' (Some ''g'')) of
           Inl e \<Rightarrow> Inl e
         | Inr reg' \<Rightarrow> register reg' ''H1'' ex_H1 (ARegistrable ''H'' (Some ''h''))))
   = Inr ex_registry"
  by (simp add: register_def ex_registry_def)

section \<open>The claims\<close>

text \<open>
  C1. For every registered family, the getter called on a fragment whose \<^verbatim>\<open>name\<close> is
  not a registered variant of the family raises the \<^verbatim>\<open>ValueError\<close> that names the
  variant; the fragment is left as it was and no constructor is invoked.
\<close>

theorem get_unknown_variant_fails:
  assumes "map_of reg t = Some fam"
    and "map_of d ''name'' = Some (VStr name)" and "map_of d ''kwargs'' = Some kwargs"
    and "map_of (variants fam) name = None"
  shows "getter l reg av (Suc n) t (VDict d) prefix
           = (Inl (ValueError_class_not_found (VStr name)), VDict d, [])"
  using assms by (simp add: isinstance_dict lookup_variant_def)

theorem get_unknown_variant_fails_witness:
  "map_of ex_registry ''f'' \<noteq> None
   \<and> getter table_lib ex_registry [] (Suc 0) ''f''
         (VDict [(''name'', VStr ''does_not_exist''), (''kwargs'', VDict [])]) None
       = (Inl (ValueError_class_not_found (VStr ''does_not_exist'')),
          VDict [(''name'', VStr ''does_not_exist''), (''kwargs'', VDict [])], [])"
  using get_unknown_variant_fails [of ex_registry "''f''"
      "\<lparr>fam_type = ARegistrable ''F'' (Some ''f''), fam_constructor = ex_A,
        variants = [(''A'', ex_A), (''B'', ex_B)]\<rparr>"
      "[(''name'', VStr ''does_not_exist''), (''kwargs'', VDict [])]" "''does_not_exist''" "VDict []"
      table_lib "[]" 0 None]
  by (simp add: ex_registry_def)

text \<open>
  C2. The claim is that the engine walks the declared parameters of the constructor that
  was looked up. In the source the getter passes \<^verbatim>\<open>constructor\<close>, the variable of the
  enclosing \<^verbatim>\<open>register\<close> call that created the getter, so the engine walks the signature
  of the family's first registered constructor. Family \<open>f\<close> was created by registering
  \<open>A\<close>, which has no parameter \<open>g\<close>: resolving variant \<open>B\<close> leaves the nested fragment
  under \<open>g\<close> as it is and hands it to the constructor of \<open>B\<close>; the getter of family \<open>g\<close>
  is never called.
\<close>

theorem engine_walks_first_registered_signature:
  "getter table_lib ex_registry [] (Suc (Suc 0)) ''f''
       (VDict [(''name'', VStr ''B''), (''kwargs'', VDict [(''g'', frag_X)])]) None
     = (Inr (VObj [''B'', ''F''] (VDict [(''g'', frag_X)])),
        VDict [(''name'', VStr ''B''), (''kwargs'', VDict [(''g'', frag_X)])],
        [(''B'', [(''g'', frag_X)])])"
  by (simp add: example_defs resolver_defs)

text \<open>
  The same nested fragment under the same annotation is resolved when the constructor
  that declares it is the one the family was created with.
\<close>

lemma engine_resolves_for_first_registered:
  "getter table_lib ex_registry [] (Suc (Suc 0)) ''h''
       (VDict [(''name'', VStr ''H1''), (''kwargs'', VDict [(''g'', frag_X)])]) None
     = (Inr (VObj [''H1'', ''H''] (VDict [(''g'', obj_X)])),
        VDict [(''name'', VStr ''H1''), (''kwargs'', VDict [(''g'', obj_X)])],
        [(''X'', []), (''H1'', [(''g'', obj_X)])])"
  by (simp add: example_defs resolver_defs)

text \<open>
  C3, as amended. When the resolution of a fragment succeeds and the command line
  overrides parameter \<open>x\<close> of the selected constructor, the last constructor invocation is
  the one of the selected constructor, and its keyword argument \<open>x\<close> is what the
  construction engine makes of the command-line value: the value itself, or, for a
  parameter the engine resolves, the object the getter of its family returns for the
  command-line value. The value the fragment had for \<open>x\<close> is not used.
\<close>

theorem cli_override_precedence:
  assumes fam: "map_of reg t = Some fam"
    and name: "map_of d ''name'' = Some (VStr name)"
    and kwargs: "map_of d ''kwargs'' = Some (VDict kw)"
    and variant: "map_of (variants fam) name = Some object_class"
    and parsed: "get_callable_parsed_args l av object_class prefix = Inr parsed_args"
    and cli: "map_of parsed_args x = Some v"
    and sig: "distinct (map fst (params (fam_constructor fam)))"
    and ok: "getter l reg av (Suc n) t (VDict d) prefix = (Inr obj, frag, calls)"
  shows "\<exists>K w. calls \<noteq> [] \<and> last calls = (ctor_id object_class, K) \<and> map_of K x = Some w
             \<and> resolved_value l reg av n (dotted prefix) (params (fam_constructor fam)) x v = Inr w"
proof -
  from getter_success [OF fam name kwargs variant parsed ok] obtain K sub where
    loop: "construct_loop l reg av n (dotted prefix) (params (fam_constructor fam))
             (dict_update kw parsed_args) = (None, K, sub)"
    and calls: "calls = sub @ [(ctor_id object_class, K)]" by blast
  have "map_of (dict_update kw parsed_args) x = Some v"
    using cli by (simp add: merged_value [OF parsed])
  from construct_loop_value [OF loop sig this] calls show ?thesis by auto
qed

theorem cli_override_precedence_witness:
  "get_callable_parsed_args table_lib [(''--agent.x'', ''2'')] ex_A (Some ''agent'') = Inr [(''x'', VInt 2)]
   \<and> getter table_lib ex_registry [(''--agent.x'', ''2'')] (Suc 0) ''f''
         (VDict [(''name'', VStr ''A''), (''kwargs'', VDict [(''x'', VInt 1)])]) (Some ''agent'')
       = (Inr (VObj [''A'', ''F''] (VDict [(''x'', VInt 2)])),
          VDict [(''name'', VStr ''A''), (''kwargs'', VDict [(''x'', VInt 2)])],
          [(''A'', [(''x'', VInt 2)])])
   \<and> (\<exists>K w. last [(''A'', [(''x'', VInt 2)])] = (ctor_id ex_A, K) \<and> map_of K ''x'' = Some w
            \<and> resolved_value table_lib ex_registry [(''--agent.x'', ''2'')] 0 (dotted (Some ''agent''))
                 (params ex_A) ''x'' (VInt 2) = Inr w)"
proof -
  let ?fam = "\<lparr>fam_type = ARegistrable ''F'' (Some ''f''), fam_constructor = ex_A,
               variants = [(''A'', ex_A), (''B'', ex_B)]\<rparr>"
  let ?d = "[(''name'', VStr ''A''), (''kwargs'', VDict [(''x'', VInt 1)])]"
  have fam: "map_of ex_registry ''f'' = Some ?fam" by (simp add: ex_registry_def)
  have name: "map_of ?d ''name'' = Some (VStr ''A'')" by simp
  have kwargs: "map_of ?d ''kwargs'' = Some (VDict [(''x'', VInt 1)])" by simp
  have variant: "map_of (variants ?fam) ''A'' = Some ex_A" by simp
  have parsed: "get_callable_parsed_args table_lib [(''--agent.x'', ''2'')] ex_A (Some ''agent'')
                  = Inr [(''x'', VInt 2)]"
    by (simp add: resolver_defs example_defs)
  have cli: "map_of [(''x'', VInt 2)] ''x'' = Some (VInt 2)" by simp
  have sig: "distinct (map fst (params (fam_constructor ?fam)))" by (simp add: ex_A_def)
  have ok: "getter table_lib ex_registry [(''--agent.x'', ''2'')] (Suc 0) ''f'' (VDict ?d) (Some ''agent'')
       = (Inr (VObj [''A'', ''F''] (VDict [(''x'', VInt 2)])),
          VDict [(''name'', VStr ''A''), (''kwargs'', VDict [(''x'', VInt 2)])],
          [(''A'', [(''x'', VInt 2)])])"
    by (simp add: resolver_defs example_defs)
  from cli_override_precedence [OF fam name kwargs variant parsed cli sig ok] parsed ok
  show ?thesis by simp
qed

text \<open>
  As stated, the claim fails for a parameter that the engine resolves: the override of \<open>g\<close>
  is a nested fragment, and the constructor of \<open>H1\<close> receives the object built from it, not
  the command-line value. (The parser of the nested constructor reads the same flag
  \<^verbatim>\<open>--g\<close> as an abbreviation of its own \<^verbatim>\<open>--g.x\<close>, so that object is built with the
  command-line value under \<open>x\<close>.)
\<close>

theorem cli_value_resolved_counterexample:
  "get_callable_parsed_args table_lib [(''--g'', ''{name: X, kwargs: {}}'')] ex_H1 None
     = Inr [(''g'', frag_X)]
   \<and> getter table_lib ex_registry [(''--g'', ''{name: X, kwargs: {}}'')] (Suc (Suc 0)) ''h''
         (VDict [(''name'', VStr ''H1''), (''kwargs'', VDict [(''g'', VNone)])]) None
       = (Inr (VObj [''H1'', ''H''] (VDict [(''g'', VObj [''X'', ''G''] (VDict [(''x'', frag_X)]))])),
          VDict [(''name'', VStr ''H1''),
                 (''kwargs'', VDict [(''g'', VObj [''X'', ''G''] (VDict [(''x'', frag_X)]))])],
          [(''X'', [(''x'', frag_X)]),
           (''H1'', [(''g'', VObj [''X'', ''G''] (VDict [(''x'', frag_X)]))])])
   \<and> VObj [''X'', ''G''] (VDict [(''x'', frag_X)]) \<noteq> frag_X"
  by (simp add: resolver_defs example_defs)

text \<open>
  C4. The claim is that a supplied flag whose parameter is declared \<^verbatim>\<open>int\<close>, \<^verbatim>\<open>bool\<close>,
  \<^verbatim>\<open>str\<close> or \<^verbatim>\<open>float\<close> is converted by calling that type. \<^verbatim>\<open>get_callable_parsed_args\<close>
  stores the \<^verbatim>\<open>inspect.Parameter\<close> objects, not their annotations, so the membership
  test of line 103 is never true and every text goes through \<^verbatim>\<open>yaml.safe_load\<close>: for a
  parameter declared \<^verbatim>\<open>str\<close> and the flag text \<^verbatim>\<open>3\<close> the override is whatever the YAML
  reader makes of \<^verbatim>\<open>3\<close> (the integer), not the string.
\<close>

theorem str_parameter_override_read_as_yaml:
  "get_callable_parsed_args l [(''--s'', ''3'')]
       \<lparr>ctor_id = c, params = [(''s'', AStr)], invoke = f\<rparr> None
     = (case yaml_safe_load l ''3'' of Inl e \<Rightarrow> Inl e | Inr v \<Rightarrow> Inr [(''s'', v)])"
  by (simp add: resolver_defs split: sum.splits)

text \<open>
  \<^verbatim>\<open>get_parsed_args\<close> itself does call the type when it is given the type, and the
  example of the specification, the text \<^verbatim>\<open>3.5\<close> for a \<^verbatim>\<open>float\<close> parameter, comes out
  as a float on the YAML path as well.
\<close>

lemma str_type_override_coerced:
  "get_parsed_args l [(''--s'', ''3'')] [(''s'', TypeObj AStr)] None = Inr [(''s'', VStr ''3'')]"
  by (simp add: resolver_defs)

lemma float_parameter_override:
  "get_callable_parsed_args table_lib [(''--lr'', ''3.5'')]
       \<lparr>ctor_id = c, params = [(''lr'', AFloat)], invoke = f\<rparr> None = Inr [(''lr'', VFloat ''3.5'')]"
  by (simp add: resolver_defs table_lib_def yaml_table_def)



text \<open>
  C6. For every registered family and every value that is an instance of the family's
  class, the getter returns that value, whatever the prefix, leaves it as it is and
  invokes no constructor; applying the getter to its own result gives the same result.
\<close>

theorem get_instance_identity:
  assumes "map_of reg t = Some fam" and "isinstance x (fam_type fam)"
  shows "getter l reg av (Suc n) t x prefix = (Inr x, x, [])
       \<and> (case returned (getter l reg av (Suc n) t x prefix) of
            Inl e \<Rightarrow> Inl e
          | Inr y \<Rightarrow> returned (getter l reg av (Suc n') t y prefix'))
         = returned (getter l reg av (Suc n) t x prefix)"
  using assms by (simp add: returned_def)

theorem get_instance_identity_witness:
  "map_of ex_registry ''f'' \<noteq> None
   \<and> isinstance (VObj [''A'', ''F''] VNone) (ARegistrable ''F'' (Some ''f''))
   \<and> getter table_lib ex_registry [(''--agent.x'', ''2'')] (Suc 0) ''f''
         (VObj [''A'', ''F''] VNone) (Some ''agent'')
       = (Inr (VObj [''A'', ''F''] VNone), VObj [''A'', ''F''] VNone, [])"
  using get_instance_identity [of ex_registry "''f''"
      "\<lparr>fam_type = ARegistrable ''F'' (Some ''f''), fam_constructor = ex_A,
        variants = [(''A'', ex_A), (''B'', ex_B)]\<rparr>" "VObj [''A'', ''F''] VNone"
      table_lib "[(''--agent.x'', ''2'')]" 0 "Some ''agent''" 0 None]
  by (simp add: ex_registry_def isinstance_def)

text \<open>
  C7. For every registered family and every prefix, the getter called on \<^verbatim>\<open>None\<close>
  returns \<^verbatim>\<open>None\<close>, without an error and without invoking a constructor.
\<close>

theorem get_none_returns_none:
  "map_of reg t = Some fam \<Longrightarrow> getter l reg av (Suc n) t VNone prefix = (Inr VNone, VNone, [])"
  by simp

theorem get_none_returns_none_witness:
  "map_of ex_registry ''f'' \<noteq> None \<and>
   getter table_lib ex_registry [] (Suc 0) ''f'' VNone (Some ''agent'') = (Inr VNone, VNone, [])"
  using get_none_returns_none [of ex_registry "''f''" _ table_lib "[]" 0 "Some ''agent''"]
  by (simp add: ex_registry_def)

text \<open>
  C8, as amended. For a constructor with a well-formed signature, the mapping of
  overrides has exactly the parameters (other than the receiver \<^verbatim>\<open>self\<close>) for whose option
  the parser stores a text: those whose option some flag on the command line selects, by
  the option string itself or by an abbreviation that the parser accepts. They come in
  the order of the signature, and every value is what the YAML reader makes of the text
  stored last for that option, so no parameter is there with a value that was not
  supplied.
\<close>

theorem overrides_exactly_selected:
  assumes wf: "wellformed_signature (params callable)"
    and res: "get_callable_parsed_args l av callable prefix = Inr m"
  shows "map fst m = filter (\<lambda>a. supplied (declared_options callable prefix) av
                                     (option_string (dotted prefix) a) \<noteq> None)
                       (filter (\<lambda>a. a \<noteq> ''self'') (map fst (params callable)))
       \<and> (\<forall>a v. map_of m a = Some v \<longrightarrow>
             (\<exists>s. supplied (declared_options callable prefix) av
                     (option_string (dotted prefix) a) = Some s
                  \<and> yaml_safe_load l s = Inr v))"
proof -
  let ?arguments = "map (\<lambda>(argument, a). (argument, ParameterObj argument a))
                      (filter (\<lambda>(argument, _). argument \<noteq> ''self'') (params callable))"
  let ?opts = "map (option_string (dotted prefix)) (map fst ?arguments)"
  let ?look = "\<lambda>a. supplied ?opts av (option_string (dotted prefix) a)"
  let ?sup = "filter (\<lambda>a. ?look a \<noteq> None) (map fst ?arguments)"
  have names: "map fst ?arguments = filter (\<lambda>a. a \<noteq> ''self'') (map fst (params callable))"
    by (rule callable_arguments_names)
  from wf have dist: "distinct (map fst ?arguments)"
    unfolding names by (simp add: wellformed_signature_def)
  from wf have plain: "list_all plain_name (map fst ?arguments)"
    unfolding names by (auto simp: wellformed_signature_def list_all_iff)
  from res have res': "get_parsed_args l av ?arguments prefix = Inr m"
    by (simp add: get_callable_parsed_args_def)
  have conv: "convert_args l ?arguments (map (\<lambda>a. (a, the (?look a))) ?sup) = Inr m"
    by (rule get_parsed_args_items [OF dist plain res'])
  have keys: "map fst m = ?sup"
    using convert_args_keys [OF conv] by (simp add: comp_def)
  have vals: "\<exists>s. ?look a = Some s \<and> yaml_safe_load l s = Inr v" if "map_of m a = Some v" for a v
  proof -
    from convert_args_values [OF conv callable_arguments_not_primitive that]
    obtain s where s: "map_of (map (\<lambda>a. (a, the (?look a))) ?sup) a = Some s"
      and y: "yaml_safe_load l s = Inr v" by blast
    from map_of_map_self [OF s] have mem: "a \<in> set ?sup" and the: "s = the (?look a)" by simp_all
    from mem have "?look a \<noteq> None" by simp
    with the y show ?thesis by auto
  qed
  from keys vals show ?thesis unfolding declared_options_def names by blast
qed

theorem overrides_exactly_selected_witness:
  "wellformed_signature (params ex_A)
   \<and> get_callable_parsed_args table_lib [(''--agent'', ''2''), (''--other.y'', ''3'')] ex_A (Some ''agent'')
       = Inr [(''x'', VInt 2)]
   \<and> map fst [(''x'', VInt 2)]
       = filter (\<lambda>a. supplied (declared_options ex_A (Some ''agent''))
                        [(''--agent'', ''2''), (''--other.y'', ''3'')]
                        (option_string (dotted (Some ''agent'')) a) \<noteq> None)
           (filter (\<lambda>a. a \<noteq> ''self'') (map fst (params ex_A)))"
proof -
  have wf: "wellformed_signature (params ex_A)"
    by (simp add: wellformed_signature_def plain_name_def ex_A_def)
  have res: "get_callable_parsed_args table_lib [(''--agent'', ''2''), (''--other.y'', ''3'')] ex_A (Some ''agent'')
       = Inr [(''x'', VInt 2)]"
    by (simp add: resolver_defs example_defs)
  from overrides_exactly_selected [OF wf res] wf res show ?thesis by blast
qed

text \<open>
  As stated, the claim fails: the flag \<^verbatim>\<open>--g.x\<close> is not on the command line, and yet the
  overrides derived for the prefix \<^verbatim>\<open>g\<close> have the parameter \<open>x\<close>, because the parser
  takes \<^verbatim>\<open>--g\<close> for an abbreviation of \<^verbatim>\<open>--g.x\<close>.
\<close>

theorem abbreviated_flag_counterexample:
  "get_callable_parsed_args table_lib [(''--g'', ''2'')] ex_X (Some ''g'') = Inr [(''x'', VInt 2)]
   \<and> option_string (dotted (Some ''g'')) ''x'' \<notin> fst ` set [(''--g'', ''2'')]"
  by (simp add: resolver_defs example_defs)

text \<open>
  C9. An occurrence of the flag \<^verbatim>\<open>--a.sub.x\<close> on the command line, wherever it stands and
  whatever its text, changes neither the overrides derived for the prefix \<^verbatim>\<open>b.sub\<close> nor
  anything else about a resolution performed with that prefix.
\<close>

theorem sibling_prefix_noninterference:
  "get_callable_parsed_args l (xs @ (''--a.sub.'' @ x, v) # ys) callable (Some ''b.sub'')
     = get_callable_parsed_args l (xs @ ys) callable (Some ''b.sub'')
   \<and> getter l reg (xs @ (''--a.sub.'' @ x, v) # ys) n t obj (Some ''b.sub'')
     = getter l reg (xs @ ys) n t obj (Some ''b.sub'')"
proof
  have flag: "''--a.sub.'' @ x = ''--'' @ CHR ''a'' # (''.sub.'' @ x)" by simp
  have root: "list_all (\<lambda>opt. take 2 opt = ''--'' \<and> 2 < length opt \<and> opt ! 2 \<noteq> CHR ''a'')
                (map (\<lambda>(argument, _). option_string (dotted (Some ''b.sub'')) argument) arguments)"
    for arguments :: "argdescr dict"
    by (rule option_strings_root) simp_all
  have ignored: "read_flag (map (\<lambda>(argument, _). option_string (dotted (Some ''b.sub'')) argument) arguments)
                   (''--a.sub.'' @ x) = Ignored"
    for arguments :: "argdescr dict"
    unfolding flag by (rule read_flag_other_root [OF _ _ root]) simp_all
  show "get_callable_parsed_args l (xs @ (''--a.sub.'' @ x, v) # ys) callable (Some ''b.sub'')
          = get_callable_parsed_args l (xs @ ys) callable (Some ''b.sub'')"
    unfolding get_callable_parsed_args_def
    by (rule parsed_args_ignore_flag) (rule ignored)
  show "getter l reg (xs @ (''--a.sub.'' @ x, v) # ys) n t obj (Some ''b.sub'')
          = getter l reg (xs @ ys) n t obj (Some ''b.sub'')"
    unfolding flag by (rule getter_ignore_flag) simp_all
qed




end
